theory Spec2Isabelle
  imports Main "HOL-Library.Code_Target_Nat"
begin

section \<open>Text\<close>

text \<open>
  The analyzer of \<^verbatim>\<open>scripts/analyze_website.py\<close> works on Python strings. A text is
  modelled as a \<^typ>\<open>string\<close>; the character numbered \<open>n\<close> stands for the code point
  \<open>n\<close>, so the texts covered are those over the code points 0 to 255. The character
  tables below are those of Python 3 on that range.
\<close>

definition ord :: "char \<Rightarrow> nat" where
  "ord c = of_char c"

definition between :: "char \<Rightarrow> char \<Rightarrow> char \<Rightarrow> bool" where
  "between lo hi c = (ord lo \<le> ord c \<and> ord c \<le> ord hi)"

text \<open>\<^verbatim>\<open>\d\<close>: the decimal digits.\<close>

definition is_digit :: "char \<Rightarrow> bool" where
  "is_digit c = between (CHR ''0'') (CHR ''9'') c"

text \<open>\<^verbatim>\<open>\s\<close> and \<^verbatim>\<open>str.isspace\<close>: tab to carriage return, the four
  separators 28 to 31, the space, NEL (133) and the no-break space (160).\<close>

definition is_space :: "char \<Rightarrow> bool" where
  "is_space c = ((9 \<le> ord c \<and> ord c \<le> 13) \<or> (28 \<le> ord c \<and> ord c \<le> 32)
     \<or> ord c = 133 \<or> ord c = 160)"

text \<open>\<^verbatim>\<open>\w\<close>: the alphanumeric characters and the underscore.\<close>

definition is_word :: "char \<Rightarrow> bool" where
  "is_word c = (is_digit c \<or> between (CHR ''A'') (CHR ''Z'') c \<or> between (CHR ''a'') (CHR ''z'') c
     \<or> c = CHR ''_''
     \<or> ord c \<in> {170, 178, 179, 181, 185, 186, 188, 189, 190}
     \<or> (192 \<le> ord c \<and> ord c \<noteq> 215 \<and> ord c \<noteq> 247))"

text \<open>Lower case of one character, as the matcher uses it when IGNORECASE is set.\<close>

definition lower_char :: "char \<Rightarrow> char" where
  "lower_char c =
     (if between (CHR ''A'') (CHR ''Z'') c \<or> (192 \<le> ord c \<and> ord c \<le> 222 \<and> ord c \<noteq> 215)
      then char_of (ord c + 32) else c)"

definition swap_upper :: "char \<Rightarrow> char" where
  "swap_upper c =
     (if between (CHR ''a'') (CHR ''z'') c \<or> (224 \<le> ord c \<and> ord c \<le> 254 \<and> ord c \<noteq> 247)
      then char_of (ord c - 32) else c)"

text \<open>
  \<^verbatim>\<open>str.upper\<close>. The sharp s (223) becomes two letters; the micro sign (181) and
  the y with diaeresis (255) have their capitals beyond code point 255 and are left as
  they are here. The analyzer applies \<open>upper\<close> to matches of \<open>hex_pattern\<close> only.
\<close>

definition upper_char :: "char \<Rightarrow> string" where
  "upper_char c = (if ord c = 223 then ''SS'' else [swap_upper c])"

definition upper :: "string \<Rightarrow> string" where
  "upper s = concat (map upper_char s)"

text \<open>\<^verbatim>\<open>s.replace(old, new)\<close> for a one-character \<open>old\<close>.\<close>

definition replace :: "char \<Rightarrow> string \<Rightarrow> string \<Rightarrow> string" where
  "replace old new s = concat (map (\<lambda>c. if c = old then new else [c]) s)"

text \<open>\<^verbatim>\<open>s.strip()\<close>: white space removed at both ends.\<close>

definition strip :: "string \<Rightarrow> string" where
  "strip s = rev (dropWhile is_space (rev (dropWhile is_space s)))"

text \<open>\<^verbatim>\<open>sub in s\<close>: \<open>sub\<close> occurs in \<open>s\<close> as a contiguous piece.\<close>

fun starts_with :: "string \<Rightarrow> string \<Rightarrow> bool" where
  "starts_with [] s = True"
| "starts_with (a # as) [] = False"
| "starts_with (a # as) (c # cs) = (a = c \<and> starts_with as cs)"

fun contains :: "string \<Rightarrow> string \<Rightarrow> bool" where
  "contains sub [] = starts_with sub []"
| "contains sub (c # cs) = (starts_with sub (c # cs) \<or> contains sub cs)"

section \<open>Regular expressions\<close>

text \<open>
  The patterns of the analyzer are written in the following abstract syntax: an atom
  matches one character; a quantifier applies to an atom, greedy or lazy, with a lower
  and an optional upper bound; \<open>Opt\<close> is the greedy optional group \<^verbatim>\<open>(?:r)?\<close>;
  \<open>Group\<close> is a capturing group. Every pattern of the analyzer has at most one.
\<close>

datatype item = Ch char | Range char char | DigitCls

datatype atom = Lit char | Any | Digit | Space | Word | In "item list" | NotIn "item list"

datatype regex =
    Eps
  | One atom
  | Cat regex regex
  | Opt regex
  | Greedy atom nat "nat option"
  | Lazy atom nat "nat option"
  | WordBoundary
  | Group regex

datatype flag = IGNORECASE | DOTALL

definition seq :: "regex list \<Rightarrow> regex" where
  "seq rs = foldr Cat rs Eps"

definition lit :: "string \<Rightarrow> regex" where
  "lit s = seq (map (\<lambda>c. One (Lit c)) s)"

abbreviation star :: "atom \<Rightarrow> regex" where
  "star a \<equiv> Greedy a 0 None"

abbreviation plus :: "atom \<Rightarrow> regex" where
  "plus a \<equiv> Greedy a 1 None"

fun item_raw :: "item \<Rightarrow> char \<Rightarrow> bool" where
  "item_raw (Ch c) x = (x = c)"
| "item_raw (Range lo hi) x = between lo hi x"
| "item_raw DigitCls x = is_digit x"

text \<open>With IGNORECASE a character is in a class when its lower case is the lower
  case of a member.\<close>

definition item_ok :: "flag list \<Rightarrow> item \<Rightarrow> char \<Rightarrow> bool" where
  "item_ok fl it x =
     (if IGNORECASE \<in> set fl
      then item_raw it (lower_char x) \<or> item_raw it (swap_upper (lower_char x))
      else item_raw it x)"

fun atom_ok :: "flag list \<Rightarrow> atom \<Rightarrow> char \<Rightarrow> bool" where
  "atom_ok fl (Lit c) x = (if IGNORECASE \<in> set fl then lower_char x = lower_char c else x = c)"
| "atom_ok fl Any x = (DOTALL \<in> set fl \<or> x \<noteq> CHR 0x0A)"
| "atom_ok fl Digit x = is_digit x"
| "atom_ok fl Space x = is_space x"
| "atom_ok fl Word x = is_word x"
| "atom_ok fl (In its) x = list_ex (\<lambda>it. item_ok fl it x) its"
| "atom_ok fl (NotIn its) x = (\<not> list_ex (\<lambda>it. item_ok fl it x) its)"

text \<open>
  A quantified atom can take between \<open>lo\<close> and \<open>reach\<close> characters: as many as match
  in a row, up to the upper bound.
\<close>

definition reach :: "(char \<Rightarrow> bool) \<Rightarrow> nat option \<Rightarrow> string \<Rightarrow> nat" where
  "reach P hi s =
     (let n = length (takeWhile P s) in case hi of None \<Rightarrow> n | Some h \<Rightarrow> min h n)"

definition split_at :: "string \<Rightarrow> nat \<Rightarrow> string \<times> string option \<times> string" where
  "split_at s k = (take k s, None, drop k s)"

definition last_char :: "char option \<Rightarrow> string \<Rightarrow> char option" where
  "last_char p m = (if m = [] then p else Some (last m))"

definition word_opt :: "char option \<Rightarrow> bool" where
  "word_opt p = (case p of None \<Rightarrow> False | Some c \<Rightarrow> is_word c)"

text \<open>
  The backtracking matcher. \<open>ms fl r p s\<close> lists the ways in which \<open>r\<close> matches at the
  front of \<open>s\<close>, the character before \<open>s\<close> being \<open>p\<close>, in the order in which the
  engine tries them: each is the matched text, the text of the group if it took part,
  and the rest of \<open>s\<close>. The engine returns the first full match, the head of the list. A
  greedy quantifier tries the longest run first and gives characters back one at a time;
  a lazy one tries the shortest first.
\<close>

primrec ms :: "flag list \<Rightarrow> regex \<Rightarrow> char option \<Rightarrow> string \<Rightarrow> (string \<times> string option \<times> string) list" where
  "ms fl Eps p s = [([], None, s)]"
| "ms fl (One a) p s =
     (case s of [] \<Rightarrow> [] | c # cs \<Rightarrow> if atom_ok fl a c then [([c], None, cs)] else [])"
| "ms fl (Cat r1 r2) p s =
     concat (map (\<lambda>(m1, g1, s1).
        map (\<lambda>(m2, g2, s2). (m1 @ m2, (case g2 of None \<Rightarrow> g1 | Some g \<Rightarrow> Some g), s2))
            (ms fl r2 (last_char p m1) s1))
       (ms fl r1 p s))"
| "ms fl (Opt r) p s = ms fl r p s @ [([], None, s)]"
| "ms fl (Greedy a lo hi) p s = map (split_at s) (rev [lo ..< Suc (reach (atom_ok fl a) hi s)])"
| "ms fl (Lazy a lo hi) p s = map (split_at s) [lo ..< Suc (reach (atom_ok fl a) hi s)]"
| "ms fl WordBoundary p s =
     (if word_opt p \<noteq> word_opt (case s of [] \<Rightarrow> None | c # cs \<Rightarrow> Some c)
      then [([], None, s)] else [])"
| "ms fl (Group r) p s = map (\<lambda>(m, g, s'). (m, Some m, s')) (ms fl r p s)"

primrec ngroups :: "regex \<Rightarrow> nat" where
  "ngroups Eps = 0"
| "ngroups (One a) = 0"
| "ngroups (Cat r1 r2) = ngroups r1 + ngroups r2"
| "ngroups (Opt r) = ngroups r"
| "ngroups (Greedy a lo hi) = 0"
| "ngroups (Lazy a lo hi) = 0"
| "ngroups WordBoundary = 0"
| "ngroups (Group r) = Suc (ngroups r)"

text \<open>What \<^verbatim>\<open>re.findall\<close> reports for a match: the whole match when the pattern
  has no group, the text of the group when it has one.\<close>

definition reported :: "regex \<Rightarrow> string \<times> string option \<times> string \<Rightarrow> string" where
  "reported r x =
     (case x of (m, g, s') \<Rightarrow>
        if ngroups r = 0 then m else (case g of None \<Rightarrow> [] | Some t \<Rightarrow> t))"

text \<open>
  The scan of \<^verbatim>\<open>re.findall\<close>: at each position the first full match is taken and the
  scan goes on behind it; where nothing matches, it moves one character on. After an
  empty match the next match at the same position must not be empty
  (\<open>must_advance\<close>). The rest behind a match that is not empty is always shorter than
  the text (lemma \<open>ms_sound\<close>), so the last branch is never taken.
\<close>

function scan :: "flag list \<Rightarrow> regex \<Rightarrow> bool \<Rightarrow> char option \<Rightarrow> string \<Rightarrow> string list" where
  "scan fl r must_advance p s =
     (case filter (\<lambda>(m, g, s'). \<not> (must_advance \<and> m = [])) (ms fl r p s) of
        [] \<Rightarrow> (case s of [] \<Rightarrow> [] | c # cs \<Rightarrow> scan fl r False (Some c) cs)
      | (m, g, s') # _ \<Rightarrow>
          reported r (m, g, s') #
            (if m = [] then (if must_advance then [] else scan fl r True p s)
             else if length s' < length s then scan fl r False (Some (last m)) s'
             else []))"
  by pat_completeness auto
termination
  by (relation "measures [\<lambda>(fl, r, ma, p, s). length s, \<lambda>(fl, r, ma, p, s). if ma then 0 else 1]")
     auto

declare scan.simps [simp del]

definition findall :: "regex \<Rightarrow> string \<Rightarrow> flag list \<Rightarrow> string list" where
  "findall r s fl = scan fl r False None s"

section \<open>Colors\<close>

text \<open>\<^verbatim>\<open>hex_pattern = r'#[0-9A-Fa-f]{3,6}\b'\<close>\<close>

definition hex_digit :: atom where
  "hex_digit = In [Range (CHR ''0'') (CHR ''9''), Range (CHR ''A'') (CHR ''F''),
                   Range (CHR ''a'') (CHR ''f'')]"

definition hex_pattern :: regex where
  "hex_pattern = seq [lit ''#'', Greedy hex_digit 3 (Some 6), WordBoundary]"

text \<open>\<^verbatim>\<open>rgb_pattern = r'rgba?\s*\(\s*\d+\s*,\s*\d+\s*,\s*\d+(?:\s*,\s*[\d.]+)?\s*\)'\<close>\<close>

definition rgb_pattern :: regex where
  "rgb_pattern =
     seq [lit ''rgb'', Greedy (Lit (CHR ''a'')) 0 (Some 1), star Space, lit ''('',
          star Space, plus Digit, star Space, lit '','',
          star Space, plus Digit, star Space, lit '','',
          star Space, plus Digit,
          Opt (seq [star Space, lit '','', star Space, plus (In [DigitCls, Ch (CHR ''.'')])]),
          star Space, lit '')'']"

record color_dict =
  hex :: "string set"
  rgb :: "string set"
  rgba :: "string set"

text \<open>The loop body of \<open>extract_colors_from_css\<close> over the rgb matches.\<close>

definition route_rgb :: "string \<Rightarrow> color_dict \<Rightarrow> color_dict" where
  "route_rgb m cs =
     (if contains ''rgba'' m then cs\<lparr>rgba := insert m (rgba cs)\<rparr>
      else cs\<lparr>rgb := insert m (rgb cs)\<rparr>)"

definition extract_colors_from_css :: "string \<Rightarrow> color_dict" where
  "extract_colors_from_css css_content =
     (let cs = \<lparr>hex = {}, rgb = {}, rgba = {}\<rparr>;
          hex_colors = findall hex_pattern css_content [];
          cs = cs\<lparr>hex := hex cs \<union> set (map upper hex_colors)\<rparr>;
          rgb_colors = findall rgb_pattern css_content []
      in fold route_rgb rgb_colors cs)"

section \<open>Fonts\<close>

text \<open>\<^verbatim>\<open>font_pattern = r'font-family\s*:\s*([^;]+);'\<close>\<close>

definition font_pattern :: regex where
  "font_pattern =
     seq [lit ''font-family'', star Space, lit '':'', star Space,
          Group (plus (NotIn [Ch (CHR '';'')])), lit '';'']"

text \<open>\<^verbatim>\<open>font.replace('"', '').replace("'", '').strip()\<close>\<close>

definition clean_font :: "string \<Rightarrow> string" where
  "clean_font font = strip (replace (CHR 0x27) [] (replace (CHR 0x22) [] font))"

definition add_font :: "string \<Rightarrow> string list \<Rightarrow> string list" where
  "add_font font cleaned_fonts =
     (let cleaned = clean_font font
      in if cleaned \<notin> set cleaned_fonts then cleaned_fonts @ [cleaned] else cleaned_fonts)"

definition extract_fonts_from_css :: "string \<Rightarrow> string list" where
  "extract_fonts_from_css css_content =
     (let fonts = findall font_pattern css_content [IGNORECASE]
      in fold add_font fonts [])"

section \<open>Spacing\<close>

text \<open>\<^verbatim>\<open>margin_pattern = r'margin(?:-\w+)?\s*:\s*([^;]+);'\<close> and the same for
  \<^verbatim>\<open>padding\<close>.\<close>

definition spacing_pattern :: "string \<Rightarrow> regex" where
  "spacing_pattern name =
     seq [lit name, Opt (seq [lit ''-'', plus Word]), star Space, lit '':'', star Space,
          Group (plus (NotIn [Ch (CHR '';'')])), lit '';'']"

definition margin_pattern :: regex where
  "margin_pattern = spacing_pattern ''margin''"

definition padding_pattern :: regex where
  "padding_pattern = spacing_pattern ''padding''"

record spacing_dict =
  margins :: "string set"
  paddings :: "string set"

definition extract_spacing_values :: "string \<Rightarrow> spacing_dict" where
  "extract_spacing_values css_content =
     (let spacing = \<lparr>margins = {}, paddings = {}\<rparr>;
          ms1 = findall margin_pattern css_content [IGNORECASE];
          spacing = spacing\<lparr>margins := margins spacing \<union> set ms1\<rparr>;
          ps1 = findall padding_pattern css_content [IGNORECASE]
      in spacing\<lparr>paddings := paddings spacing \<union> set ps1\<rparr>)"

section \<open>Components\<close>

text \<open>\<^verbatim>\<open>r'<button[^>]*>.*?</button>'\<close>, and the same for \<^verbatim>\<open>form\<close> and
  \<^verbatim>\<open>nav\<close>.\<close>

definition element_pattern :: "string \<Rightarrow> regex" where
  "element_pattern name =
     seq [lit ''<'', lit name, star (NotIn [Ch (CHR ''>'')]), lit ''>'',
          Lazy Any 0 None, lit ''</'', lit name, lit ''>'']"

definition button_pattern :: regex where
  "button_pattern = element_pattern ''button''"

definition form_pattern :: regex where
  "form_pattern = element_pattern ''form''"

definition nav_pattern :: regex where
  "nav_pattern = element_pattern ''nav''"

text \<open>\<^verbatim>\<open>str(n)\<close>: the decimal digits of a number.\<close>

function str :: "nat \<Rightarrow> string" where
  "str n = (if n < 10 then [char_of (48 + n)] else str (n div 10) @ [char_of (48 + n mod 10)])"
  by pat_completeness auto
termination
  by (relation "measure id") auto

text \<open>\<^verbatim>\<open>heading_pattern = f'<h{level}[^>]*>(.*?)</h{level}>'\<close>\<close>

definition heading_pattern :: "nat \<Rightarrow> regex" where
  "heading_pattern level =
     seq [lit ''<h'', lit (str level), star (NotIn [Ch (CHR ''>'')]), lit ''>'',
          Group (Lazy Any 0 None), lit ''</h'', lit (str level), lit ''>'']"

text \<open>The entry \<^verbatim>\<open>{f'h{level}': len(headings), 'examples': headings[:3]}\<close>: its
  first key and that key's value, and the examples.\<close>

record heading_dict =
  key :: string
  count :: nat
  examples :: "string list"

record components_dict =
  buttons :: "string list"
  forms :: nat
  navigation :: nat
  headings :: "heading_dict list"

text \<open>The body of the loop over the heading levels.\<close>

definition add_level :: "string \<Rightarrow> nat \<Rightarrow> heading_dict list \<Rightarrow> heading_dict list" where
  "add_level html_content level hs =
     (let found = findall (heading_pattern level) html_content [IGNORECASE, DOTALL]
      in if found \<noteq> []
         then hs @ [\<lparr>key = ''h'' @ str level, count = length found, examples = take 3 found\<rparr>]
         else hs)"

definition analyze_html_structure :: "string \<Rightarrow> components_dict" where
  "analyze_html_structure html_content =
     (let bs = findall button_pattern html_content [IGNORECASE, DOTALL];
          fs = findall form_pattern html_content [IGNORECASE, DOTALL];
          ns = findall nav_pattern html_content [IGNORECASE, DOTALL]
      in \<lparr>buttons = take 5 bs, forms = length fs, navigation = length ns,
          headings = fold (add_level html_content) [1 ..< 7] []\<rparr>)"

section \<open>The report\<close>

text \<open>
  \<open>analyze_website\<close> builds the report and fills it from the texts it is given. The
  entries \<^verbatim>\<open>colors\<close>, \<^verbatim>\<open>spacing\<close> and \<^verbatim>\<open>components\<close> start as the empty
  dictionary and \<^verbatim>\<open>typography\<close> has no \<^verbatim>\<open>fonts\<close> entry: \<open>None\<close> here. The
  host is read by \<^verbatim>\<open>urlparse(url).netloc\<close> of the standard library, which raises
  \<^verbatim>\<open>ValueError\<close> on some texts; what it gives for the URL, the host or the error,
  is the argument \<open>netloc\<close> of the model. The error is raised while the report is built,
  before any text is looked at. An optional argument left out is \<open>None\<close>, and Python's
  truth test of an optional text holds for a text that is given and not empty.
\<close>

datatype error = ValueError

record metadata_dict =
  analyzed_at :: string
  version :: string

record design_system =
  url :: string
  domain :: string
  colors :: "color_dict option"
  typography :: "string list option"
  spacing :: "spacing_dict option"
  components :: "components_dict option"
  metadata :: metadata_dict

definition truthy :: "string option \<Rightarrow> bool" where
  "truthy t = (case t of None \<Rightarrow> False | Some s \<Rightarrow> s \<noteq> [])"

definition analyze_website ::
  "error + string \<Rightarrow> string \<Rightarrow> string option \<Rightarrow> string option \<Rightarrow> error + design_system" where
  "analyze_website netloc u html_content css_content =
     (case netloc of
        Inl e \<Rightarrow> Inl e
      | Inr d \<Rightarrow>
          let ds = \<lparr>url = u, domain = d, colors = None, typography = None, spacing = None,
                    components = None,
                    metadata = \<lparr>analyzed_at = ''timestamp'', version = ''1.0''\<rparr>\<rparr>;
              ds = (if truthy css_content
                    then ds\<lparr>colors := Some (extract_colors_from_css (the css_content)),
                            typography := Some (extract_fonts_from_css (the css_content)),
                            spacing := Some (extract_spacing_values (the css_content))\<rparr>
                    else ds);
              ds = (if truthy html_content
                    then ds\<lparr>components := Some (analyze_html_structure (the html_content))\<rparr>
                    else ds)
          in Inr ds)"

section \<open>Notions used in the statements\<close>

text \<open>
  The hexadecimal digits as the first pattern's class \<^verbatim>\<open>[0-9A-Fa-f]\<close> accepts them, and
  as a list of characters.
\<close>

definition hexd :: "char \<Rightarrow> bool" where
  "hexd c = atom_ok [] hex_digit c"

definition bnd :: "string \<Rightarrow> bool" where
  "bnd post = (post = [] \<or> \<not> is_word (hd post))"

definition hexdigit :: "char \<Rightarrow> bool" where
  "hexdigit c = (c \<in> set ''0123456789abcdefABCDEF'')"

definition hex_literal :: "string \<Rightarrow> bool" where
  "hex_literal m = (\<exists>ds. m = CHR ''#'' # ds \<and> 3 \<le> length ds \<and> length ds \<le> 6 \<and> (\<forall>d \<in> set ds. hexdigit d))"

definition hex_occurrences :: "string \<Rightarrow> string set" where
  "hex_occurrences css =
     {m. \<exists>pre post. css = pre @ m @ post \<and> hex_literal m \<and> (post = [] \<or> \<not> is_word (hd post))}"

definition hex_front :: "string \<Rightarrow> string set" where
  "hex_front s = {m. \<exists>post. s = m @ post \<and> hex_literal m \<and> bnd post}"

definition uphex :: "char \<Rightarrow> bool" where
  "uphex c = (c \<in> set ''0123456789ABCDEF'')"



text \<open>Six margin declarations, of which two pairs share a value, and six padding
  declarations that all share one.\<close>

definition six_margins :: string where
  "six_margins = ''margin-top: 1px; margin-right: 2px; margin-bottom: 1px; margin-left: 2px; margin: 0; margin-inline: 4px;''"

definition six_paddings :: string where
  "six_paddings = ''padding:0;padding-top:0;padding-right:0;padding-bottom:0;padding-left:0;padding-block:0;''"

text \<open>
  For evaluation: the matches of a lazy quantifier followed by the rest of a pattern,
  computed in one pass over the text. The matched text is put together only where the
  rest of the pattern matches (lemma \<open>ms_Cat_code\<close>).
\<close>

definition emit ::
  "(char option \<Rightarrow> string \<Rightarrow> (string \<times> string option \<times> string) list) \<Rightarrow> bool \<Rightarrow> string
     \<Rightarrow> char option \<Rightarrow> string \<Rightarrow> (string \<times> string option \<times> string) list" where
  "emit f grp acc p s =
     map (\<lambda>(m2, g2, s2).
            (rev acc @ m2,
             (case g2 of None \<Rightarrow> (if grp then Some (rev acc) else None) | Some g \<Rightarrow> Some g), s2))
       (f p s)"

fun lazy_then ::
  "(char option \<Rightarrow> string \<Rightarrow> (string \<times> string option \<times> string) list) \<Rightarrow> (char \<Rightarrow> bool) \<Rightarrow> bool
     \<Rightarrow> nat \<Rightarrow> nat option \<Rightarrow> string \<Rightarrow> char option \<Rightarrow> string
     \<Rightarrow> (string \<times> string option \<times> string) list" where
  "lazy_then f P grp lo hi acc p [] = (if lo = 0 then emit f grp acc p [] else [])"
| "lazy_then f P grp lo hi acc p (c # cs) =
     (if lo = 0 then emit f grp acc p (c # cs) else []) @
     (if P c \<and> hi \<noteq> Some 0
      then lazy_then f P grp (lo - 1) (map_option (\<lambda>h. h - 1) hi) (c # acc) (Some c) cs
      else [])"

text \<open>
  Upper case of a hexadecimal digit, as a table: the six letters \<open>a\<close> to \<open>f\<close> become
  \<open>A\<close> to \<open>F\<close>, every other character stays.
\<close>

definition hex_upper :: "char \<Rightarrow> char" where
  "hex_upper c =
     (if c = CHR ''a'' then CHR ''A'' else if c = CHR ''b'' then CHR ''B''
      else if c = CHR ''c'' then CHR ''C'' else if c = CHR ''d'' then CHR ''D''
      else if c = CHR ''e'' then CHR ''E'' else if c = CHR ''f'' then CHR ''F'' else c)"




text \<open>A character that every match of a pattern contains: the pattern has it as a
  literal outside every optional or repeated part.\<close>

primrec needs :: "char \<Rightarrow> regex \<Rightarrow> bool" where
  "needs c Eps = False"
| "needs c (One a) = (a = Lit c)"
| "needs c (Cat r1 r2) = (needs c r1 \<or> needs c r2)"
| "needs c (Opt r) = False"
| "needs c (Greedy a lo hi) = False"
| "needs c (Lazy a lo hi) = False"
| "needs c WordBoundary = False"
| "needs c (Group r) = needs c r"

text \<open>A character that is the only one with its lower case.\<close>

definition uncased :: "char \<Rightarrow> bool" where
  "uncased c = (\<forall>x. lower_char x = lower_char c \<longrightarrow> x = c)"

section \<open>Characters\<close>

lemma ord_char_of: "n < 256 \<Longrightarrow> ord (char_of n) = n"
  by (simp add: ord_def)

lemma ord_lt: "ord c < 256"
  by (simp add: ord_def)

lemma ord_inj: "ord a = ord b \<Longrightarrow> a = b"
  by (simp add: ord_def)

lemma ord_simps: "ord (CHR ''0'') = 48" "ord (CHR ''9'') = 57" "ord (CHR ''A'') = 65" "ord (CHR ''F'') = 70"
  "ord (CHR ''Z'') = 90" "ord (CHR ''a'') = 97" "ord (CHR ''f'') = 102" "ord (CHR ''z'') = 122"
  "ord (CHR ''#'') = 35" "ord (CHR ''_'') = 95"
  by (simp_all add: ord_def)

lemma swap_upper_idem: "swap_upper (swap_upper c) = swap_upper c"
  using ord_lt [of c] by (auto simp: swap_upper_def between_def ord_simps ord_char_of)

lemma upper_idem: "upper (upper s) = upper s"
  by (induction s) (auto simp: upper_def upper_char_def swap_upper_idem swap_upper_def between_def ord_simps ord_char_of ord_def)

lemma ms_sound: "(m, g, s') \<in> set (ms fl r p s) \<Longrightarrow> s = m @ s'"
proof (induction r arbitrary: m g s' p s)
  case (One a)
  then show ?case by (auto split: list.splits if_splits)
next
  case (Cat r1 r2)
  then show ?case by fastforce
next
  case (Greedy a lo hi)
  then show ?case by (auto simp: split_at_def)
next
  case (Lazy a lo hi)
  then show ?case by (auto simp: split_at_def)
next
  case WordBoundary
  then show ?case by (auto split: if_splits)
qed auto


section \<open>The matcher and the scan\<close>

lemma scan_step:
  assumes nn: "\<And>p s m g s'. (m, g, s') \<in> set (ms fl r p s) \<Longrightarrow> m \<noteq> []"
  shows "scan fl r ma p s =
    (case ms fl r p s of
       [] \<Rightarrow> (case s of [] \<Rightarrow> [] | c # cs \<Rightarrow> scan fl r False (Some c) cs)
     | x # _ \<Rightarrow> reported r x # scan fl r False (Some (last (fst x))) (snd (snd x)))"
proof -
  have f: "filter (\<lambda>(m, g, s'). \<not> (ma \<and> m = [])) (ms fl r p s) = ms fl r p s"
    by (rule filter_True) (auto dest: nn)
  show ?thesis
  proof (cases "ms fl r p s")
    case Nil
    then show ?thesis
      by (subst scan.simps) (simp add: f)
  next
    case (Cons x xs)
    obtain m g s' where x: "x = (m, g, s')"
      by (cases x) auto
    have "(m, g, s') \<in> set (ms fl r p s)"
      using Cons x by simp
    then have "m \<noteq> []" and "s = m @ s'"
      using nn ms_sound by blast+
    then have "length s' < length s"
      by simp
    then show ?thesis
      using Cons x \<open>m \<noteq> []\<close> by (subst scan.simps) (simp add: f)
  qed
qed

lemma hexd_iff: "hexd c \<longleftrightarrow> (48 \<le> ord c \<and> ord c \<le> 57) \<or> (65 \<le> ord c \<and> ord c \<le> 70) \<or> (97 \<le> ord c \<and> ord c \<le> 102)"
  by (simp add: hexd_def hex_digit_def item_ok_def between_def ord_simps)

lemma hexd_word: "hexd c \<Longrightarrow> is_word c"
  by (auto simp: hexd_iff is_word_def is_digit_def between_def ord_simps)

lemma hexd_not_hash: "hexd c \<Longrightarrow> c \<noteq> CHR ''#''"
  by (auto simp: hexd_iff ord_simps)

lemma ms_Eps_iff: "(m, g, s') \<in> set (ms fl Eps p s) \<longleftrightarrow> m = [] \<and> g = None \<and> s' = s"
  by auto

lemma ms_One_iff:
  "(m, g, s') \<in> set (ms fl (One a) p s) \<longleftrightarrow>
     (\<exists>c. s = c # s' \<and> atom_ok fl a c \<and> m = [c] \<and> g = None)"
  by (auto split: list.splits)

lemma ms_Cat_iff:
  "(m, g, s') \<in> set (ms fl (Cat r1 r2) p s) \<longleftrightarrow>
     (\<exists>m1 g1 s1 m2 g2. (m1, g1, s1) \<in> set (ms fl r1 p s) \<and>
        (m2, g2, s') \<in> set (ms fl r2 (last_char p m1) s1) \<and>
        m = m1 @ m2 \<and> g = (case g2 of None \<Rightarrow> g1 | Some t \<Rightarrow> Some t))"
  by (simp, safe) (force+)

lemma ms_Greedy_iff:
  "(m, g, s') \<in> set (ms fl (Greedy a lo hi) p s) \<longleftrightarrow>
     (\<exists>k. lo \<le> k \<and> k \<le> reach (atom_ok fl a) hi s \<and> m = take k s \<and> g = None \<and> s' = drop k s)"
  by (auto simp: split_at_def)

lemma ms_Lazy_iff:
  "(m, g, s') \<in> set (ms fl (Lazy a lo hi) p s) \<longleftrightarrow>
     (\<exists>k. lo \<le> k \<and> k \<le> reach (atom_ok fl a) hi s \<and> m = take k s \<and> g = None \<and> s' = drop k s)"
  by (auto simp: split_at_def)

lemma ms_WordBoundary_iff:
  "(m, g, s') \<in> set (ms fl WordBoundary p s) \<longleftrightarrow>
     (word_opt p \<noteq> word_opt (case s of [] \<Rightarrow> None | c # cs \<Rightarrow> Some c) \<and> m = [] \<and> g = None \<and> s' = s)"
  by auto

lemma ms_Opt_iff:
  "(m, g, s') \<in> set (ms fl (Opt r) p s) \<longleftrightarrow>
     (m, g, s') \<in> set (ms fl r p s) \<or> (m = [] \<and> g = None \<and> s' = s)"
  by auto

lemma ms_Group_iff:
  "(m, g, s') \<in> set (ms fl (Group r) p s) \<longleftrightarrow> (\<exists>g'. (m, g', s') \<in> set (ms fl r p s) \<and> g = Some m)"
  by force

lemmas ms_iff = ms_Eps_iff ms_One_iff ms_Cat_iff ms_Greedy_iff ms_Lazy_iff ms_WordBoundary_iff
  ms_Opt_iff ms_Group_iff

lemma takeWhile_nth_holds: "k < length (takeWhile P xs) \<Longrightarrow> P (xs ! k)"
  by (metis nth_mem set_takeWhileD takeWhile_nth)

lemma bnd_iff: "bnd post \<longleftrightarrow> \<not> word_opt (case post of [] \<Rightarrow> None | c # cs \<Rightarrow> Some c)"
  by (cases post) (simp_all add: bnd_def word_opt_def)

lemma last_char_simps: "last_char p [] = p" "last_char p (c # cs) = Some (last (c # cs))"
  by (simp_all add: last_char_def)

lemma hex_unfold:
  "(m, g, s') \<in> set (ms [] hex_pattern p s) \<longleftrightarrow>
     (\<exists>cs k. s = CHR ''#'' # cs \<and> 3 \<le> k \<and> k \<le> reach hexd (Some 6) cs \<and>
        word_opt (last_char (Some (CHR ''#'')) (take k cs))
          \<noteq> word_opt (case drop k cs of [] \<Rightarrow> None | c # cs \<Rightarrow> Some c) \<and>
        m = CHR ''#'' # take k cs \<and> g = None \<and> s' = drop k cs)"
  (is "?L \<longleftrightarrow> ?R")
proof
  show "?L \<Longrightarrow> ?R"
    by (auto simp: hex_pattern_def seq_def lit_def ms_iff hexd_def [abs_def] last_char_simps
        simp del: ms.simps)
  show "?R \<Longrightarrow> ?L"
    by (fastforce simp: hex_pattern_def seq_def lit_def ms_iff hexd_def [abs_def] last_char_simps
        simp del: ms.simps)
qed

lemma hex_ms_iff:
  "(m, g, s') \<in> set (ms [] hex_pattern p s) \<longleftrightarrow>
     (\<exists>cs. s = CHR ''#'' # cs \<and> m = CHR ''#'' # takeWhile hexd cs \<and> g = None \<and>
        s' = dropWhile hexd cs \<and> 3 \<le> length (takeWhile hexd cs) \<and>
        length (takeWhile hexd cs) \<le> 6 \<and> bnd (dropWhile hexd cs))"
  (is "?L \<longleftrightarrow> ?R")
proof
  assume ?L
  then obtain cs k where s: "s = CHR ''#'' # cs" and k: "3 \<le> k" "k \<le> reach hexd (Some 6) cs"
    and wb: "word_opt (last_char (Some (CHR ''#'')) (take k cs))
               \<noteq> word_opt (case drop k cs of [] \<Rightarrow> None | c # cs \<Rightarrow> Some c)"
    and m: "m = CHR ''#'' # take k cs" and g: "g = None" and s': "s' = drop k cs"
    unfolding hex_unfold by blast
  let ?n = "length (takeWhile hexd cs)"
  have kL: "k \<le> ?n" "k \<le> 6"
    using k by (simp_all add: reach_def)
  have klen: "k \<le> length cs"
    using kL length_takeWhile_le [of hexd cs] by linarith
  have "k - 1 < ?n"
    using kL k by simp
  then have "hexd (cs ! (k - 1))"
    by (rule takeWhile_nth_holds)
  moreover have "take k cs \<noteq> []"
    using k klen by auto
  moreover from this have "last (take k cs) = cs ! (k - 1)"
    using k klen by (simp add: last_conv_nth min_absorb2)
  ultimately have w1: "word_opt (last_char (Some (CHR ''#'')) (take k cs))"
    by (simp add: last_char_def word_opt_def hexd_word)
  have "k = ?n"
  proof (rule ccontr)
    assume "k \<noteq> ?n"
    then have lt: "k < ?n"
      using kL by simp
    then have "hexd (cs ! k)"
      by (rule takeWhile_nth_holds)
    moreover have "k < length cs"
      using lt length_takeWhile_le [of hexd cs] by linarith
    then have "drop k cs = cs ! k # drop (Suc k) cs"
      by (simp add: Cons_nth_drop_Suc)
    ultimately have "word_opt (case drop k cs of [] \<Rightarrow> None | c # cs \<Rightarrow> Some c)"
      by (simp add: word_opt_def hexd_word)
    with wb w1 show False
      by simp
  qed
  moreover have "take ?n cs = takeWhile hexd cs" "drop ?n cs = dropWhile hexd cs"
    by (simp_all add: takeWhile_eq_take [symmetric] dropWhile_eq_drop [symmetric])
  moreover have "bnd (drop k cs)"
    using wb w1 by (simp only: bnd_iff) simp
  ultimately show ?R
    using s m g s' k kL by auto
next
  assume ?R
  then obtain cs where s: "s = CHR ''#'' # cs" and m: "m = CHR ''#'' # takeWhile hexd cs"
    and g: "g = None" and s': "s' = dropWhile hexd cs"
    and L: "3 \<le> length (takeWhile hexd cs)" "length (takeWhile hexd cs) \<le> 6"
    and b: "bnd (dropWhile hexd cs)"
    by auto
  let ?n = "length (takeWhile hexd cs)"
  have td: "take ?n cs = takeWhile hexd cs" "drop ?n cs = dropWhile hexd cs"
    by (simp_all add: takeWhile_eq_take [symmetric] dropWhile_eq_drop [symmetric])
  have ne: "takeWhile hexd cs \<noteq> []"
    using L by auto
  then have "last (takeWhile hexd cs) \<in> set (takeWhile hexd cs)"
    by simp
  then have "hexd (last (takeWhile hexd cs))"
    by (rule set_takeWhileD [THEN conjunct2])
  then have w1: "word_opt (last_char (Some (CHR ''#'')) (take ?n cs))"
    using ne by (simp add: td last_char_def word_opt_def hexd_word)
  have w2: "\<not> word_opt (case drop ?n cs of [] \<Rightarrow> None | c # cs \<Rightarrow> Some c)"
    using b unfolding td bnd_iff .
  have "\<exists>k. 3 \<le> k \<and> k \<le> reach hexd (Some 6) cs \<and>
      word_opt (last_char (Some (CHR ''#'')) (take k cs))
        \<noteq> word_opt (case drop k cs of [] \<Rightarrow> None | c # cs \<Rightarrow> Some c) \<and>
      m = CHR ''#'' # take k cs \<and> s' = drop k cs"
    using L w1 w2 m s' td by (intro exI [of _ ?n]) (simp add: reach_def)
  then show ?L
    unfolding hex_unfold using s g by blast
qed


section \<open>The matches of the hex pattern\<close>

lemma char_of_ord: "char_of (ord c) = c"
  by (simp add: ord_def)

lemma hexd_hexdigit: "hexd c = hexdigit c"
proof
  assume "hexd c"
  then have "ord c \<in> ord ` set ''0123456789abcdefABCDEF''"
    unfolding hexd_iff by (simp add: ord_def, arith)
  then obtain x where "x \<in> set ''0123456789abcdefABCDEF''" and "ord c = ord x"
    by blast
  then show "hexdigit c"
    unfolding hexdigit_def using ord_inj by blast
next
  assume "hexdigit c"
  then show "hexd c"
    unfolding hexdigit_def hexd_iff by (auto simp: ord_def)
qed

lemma hex_nonempty: "(m, g, s') \<in> set (ms [] hex_pattern p s) \<Longrightarrow> m \<noteq> []"
  by (auto simp: hex_ms_iff)

lemma hex_unique:
  "x \<in> set (ms [] hex_pattern p s) \<Longrightarrow> y \<in> set (ms [] hex_pattern p s) \<Longrightarrow> x = y"
  by (cases x, cases y) (auto simp: hex_ms_iff)

lemma takeWhile_run:
  assumes "\<forall>d \<in> set ds. P d" and "post = [] \<or> \<not> P (hd post)"
  shows "takeWhile P (ds @ post) = ds" and "dropWhile P (ds @ post) = post"
  using assms by (cases post; simp)+

lemma hex_front_iff: "m \<in> hex_front s \<longleftrightarrow> (\<exists>g s'. (m, g, s') \<in> set (ms [] hex_pattern p s))"
proof
  assume "m \<in> hex_front s"
  then obtain post ds where s: "s = m @ post" and m: "m = CHR ''#'' # ds"
    and len: "3 \<le> length ds" "length ds \<le> 6" and ds: "\<forall>d \<in> set ds. hexd d" and b: "bnd post"
    by (auto simp: hex_front_def hex_literal_def hexd_hexdigit)
  have "post = [] \<or> \<not> hexd (hd post)"
    using b hexd_word by (auto simp: bnd_def)
  with ds have "takeWhile hexd (ds @ post) = ds" "dropWhile hexd (ds @ post) = post"
    by (rule takeWhile_run)+
  then have "(m, None, post) \<in> set (ms [] hex_pattern p s)"
    using s m len b by (simp add: hex_ms_iff)
  then show "\<exists>g s'. (m, g, s') \<in> set (ms [] hex_pattern p s)"
    by blast
next
  assume "\<exists>g s'. (m, g, s') \<in> set (ms [] hex_pattern p s)"
  then obtain g s' where in_ms: "(m, g, s') \<in> set (ms [] hex_pattern p s)"
    by blast
  then have "s = m @ s'"
    by (rule ms_sound)
  moreover have "hex_literal m" "bnd s'"
    using in_ms by (auto simp: hex_ms_iff hex_literal_def hexd_hexdigit [symmetric] dest: set_takeWhileD)
  ultimately show "m \<in> hex_front s"
    by (auto simp: hex_front_def)
qed

lemma hex_occurrences_Nil: "hex_occurrences [] = {}"
  by (auto simp: hex_occurrences_def hex_literal_def)

lemma hex_occurrences_Cons: "hex_occurrences (c # cs) = hex_front (c # cs) \<union> hex_occurrences cs"
proof -
  have "m \<in> hex_occurrences (c # cs) \<longleftrightarrow> m \<in> hex_front (c # cs) \<or> m \<in> hex_occurrences cs" for m
  proof -
    have "(\<exists>pre post. c # cs = pre @ m @ post \<and> Q post) \<longleftrightarrow>
          (\<exists>post. c # cs = m @ post \<and> Q post) \<or> (\<exists>pre post. cs = pre @ m @ post \<and> Q post)" for Q
      by (auto simp: Cons_eq_append_conv)
    then show ?thesis
      by (auto simp: hex_occurrences_def hex_front_def bnd_def)
  qed
  then show ?thesis
    by blast
qed

lemma hex_front_other: "c \<noteq> CHR ''#'' \<Longrightarrow> hex_front (c # cs) = {}"
  by (auto simp: hex_front_def hex_literal_def)

lemma hex_occurrences_skip: "\<forall>d \<in> set ds. hexd d \<Longrightarrow> hex_occurrences (ds @ rest) = hex_occurrences rest"
  by (induction ds) (auto simp: hex_occurrences_Cons hex_front_other dest: hexd_not_hash)

lemma ngroups_hex: "ngroups hex_pattern = 0"
  by (simp add: hex_pattern_def seq_def lit_def)

lemma scan_hex: "set (scan [] hex_pattern ma p s) = hex_occurrences s"
proof (induction s arbitrary: ma p rule: length_induct)
  case (1 s)
  have eq: "scan [] hex_pattern ma p s =
    (case ms [] hex_pattern p s of
       [] \<Rightarrow> (case s of [] \<Rightarrow> [] | c # cs \<Rightarrow> scan [] hex_pattern False (Some c) cs)
     | x # _ \<Rightarrow> reported hex_pattern x # scan [] hex_pattern False (Some (last (fst x))) (snd (snd x)))"
    by (rule scan_step) (rule hex_nonempty)
  show ?case
  proof (cases "ms [] hex_pattern p s")
    case Nil
    then have front: "hex_front s = {}"
      using hex_front_iff [of _ s p] by auto
    show ?thesis
    proof (cases s)
      case Nil
      then show ?thesis
        using eq \<open>ms [] hex_pattern p s = []\<close> by (simp add: hex_occurrences_Nil)
    next
      case (Cons c cs)
      then have "set (scan [] hex_pattern False (Some c) cs) = hex_occurrences cs"
        using 1 by simp
      then show ?thesis
        using eq Cons front \<open>ms [] hex_pattern p s = []\<close>
        by (simp add: hex_occurrences_Cons)
    qed
  next
    case (Cons x xs)
    obtain m g s' where x: "x = (m, g, s')"
      by (cases x) auto
    have in_ms: "(m, g, s') \<in> set (ms [] hex_pattern p s)"
      using Cons x by simp
    then obtain cs where s: "s = CHR ''#'' # cs" and m: "m = CHR ''#'' # takeWhile hexd cs"
      and s': "s' = dropWhile hexd cs"
      by (auto simp: hex_ms_iff)
    have front: "hex_front s = {m}"
    proof -
      have "m' \<in> hex_front s \<longleftrightarrow> m' = m" for m'
        using hex_front_iff [of m' s p] in_ms hex_unique [OF in_ms] by auto
      then show ?thesis
        by blast
    qed
    have "length s' < length s"
      using s s' by (simp add: le_imp_less_Suc length_dropWhile_le)
    then have ih: "set (scan [] hex_pattern False (Some (last m)) s') = hex_occurrences s'"
      using 1 by simp
    have "hex_occurrences cs = hex_occurrences (takeWhile hexd cs @ dropWhile hexd cs)"
      by simp
    also have "\<dots> = hex_occurrences s'"
      unfolding s' by (rule hex_occurrences_skip) (auto dest: set_takeWhileD)
    finally have "hex_occurrences s = {m} \<union> hex_occurrences s'"
      using front by (simp add: s hex_occurrences_Cons)
    then show ?thesis
      using eq Cons x ih by (simp add: reported_def ngroups_hex)
  qed
qed

section \<open>The hex collection\<close>

lemma hex_fold_route: "hex (fold route_rgb xs cs) = hex cs"
  by (induction xs arbitrary: cs) (simp_all add: route_rgb_def)

lemma hex_extract: "hex (extract_colors_from_css css) = upper ` set (findall hex_pattern css [])"
  by (simp add: extract_colors_from_css_def Let_def hex_fold_route)

lemma upper_hexdigit_table:
  "\<forall>d \<in> set ''0123456789abcdefABCDEF''.
     upper_char d = [hd (upper_char d)] \<and> uphex (hd (upper_char d))"
  by code_simp

lemma upper_hexdigit:
  assumes "hexdigit d"
  shows "\<exists>u. upper_char d = [u] \<and> uphex u"
proof -
  have "d \<in> set ''0123456789abcdefABCDEF''"
    using assms unfolding hexdigit_def .
  with upper_hexdigit_table
  have "upper_char d = [hd (upper_char d)] \<and> uphex (hd (upper_char d))"
    by (rule bspec)
  then show ?thesis
    by (rule exI)
qed

lemma upper_Cons: "upper (c # cs) = upper_char c @ upper cs"
  by (simp add: upper_def)

lemma upper_hex_run:
  "\<forall>d \<in> set ds. hexdigit d \<Longrightarrow> length (upper ds) = length ds \<and> (\<forall>u \<in> set (upper ds). uphex u)"
proof (induction ds)
  case Nil
  then show ?case
    by (simp add: upper_def)
next
  case (Cons d ds)
  then obtain u where u: "upper_char d = [u]" "uphex u"
    using upper_hexdigit [of d] by auto
  have "length (upper ds) = length ds \<and> (\<forall>u \<in> set (upper ds). uphex u)"
    using Cons by simp
  then show ?case
    using u by (simp add: upper_Cons)
qed

lemma upper_hash: "upper_char (CHR ''#'') = ''#''"
  by code_simp

lemma upper_hex_literal:
  assumes "hex_literal m"
  shows "\<exists>us. upper m = CHR ''#'' # us \<and> 3 \<le> length us \<and> length us \<le> 6 \<and> (\<forall>u \<in> set us. uphex u)"
proof -
  obtain ds where m: "m = CHR ''#'' # ds" and ds: "\<forall>d \<in> set ds. hexdigit d"
    and len: "3 \<le> length ds" "length ds \<le> 6"
    using assms unfolding hex_literal_def by blast
  have "length (upper ds) = length ds \<and> (\<forall>u \<in> set (upper ds). uphex u)"
    using ds by (rule upper_hex_run)
  moreover have "upper m = CHR ''#'' # upper ds"
    by (simp add: m upper_Cons upper_hash)
  ultimately show ?thesis
    using len by (intro exI [of _ "upper ds"]) simp
qed

section \<open>C1: which hex literals are collected\<close>

text \<open>
  Claim C1, as the code has it. The hex collection of \<open>extract_colors_from_css\<close> is the
  upper case of exactly the occurrences, in the text, of the marker \<open>#\<close> followed by
  three to six hexadecimal digits and a word boundary: every length from three to six is
  taken, four and five included. Every entry is the marker and three to six characters
  among \<open>0-9A-F\<close>, so a form of eight digits is never an entry.
\<close>

theorem hex_three_to_six:
  "hex (extract_colors_from_css css) = upper ` hex_occurrences css \<and>
   (\<forall>c \<in> hex (extract_colors_from_css css).
      \<exists>us. c = CHR ''#'' # us \<and> 3 \<le> length us \<and> length us \<le> 6 \<and> (\<forall>u \<in> set us. uphex u))"
proof
  show eq: "hex (extract_colors_from_css css) = upper ` hex_occurrences css"
    by (simp add: hex_extract findall_def scan_hex)
  show "\<forall>c \<in> hex (extract_colors_from_css css).
      \<exists>us. c = CHR ''#'' # us \<and> 3 \<le> length us \<and> length us \<le> 6 \<and> (\<forall>u \<in> set us. uphex u)"
  proof
    fix c
    assume "c \<in> hex (extract_colors_from_css css)"
    then obtain m where c: "c = upper m" and m: "hex_literal m"
      unfolding eq hex_occurrences_def by blast
    show "\<exists>us. c = CHR ''#'' # us \<and> 3 \<le> length us \<and> length us \<le> 6 \<and> (\<forall>u \<in> set us. uphex u)"
      unfolding c using m by (rule upper_hex_literal)
  qed
qed

text \<open>The statement at a text with a six-digit and a four-digit literal.\<close>

theorem hex_three_to_six_witness:
  "upper ` hex_occurrences ''a { color: #1a2B3c; border: #ffff }'' = {''#1A2B3C'', ''#FFFF''} \<and>
   (\<exists>us. ''#FFFF'' = CHR ''#'' # us \<and> 3 \<le> length us \<and> length us \<le> 6 \<and> (\<forall>u \<in> set us. uphex u))"
proof -
  have h: "hex (extract_colors_from_css ''a { color: #1a2B3c; border: #ffff }'') = {''#1A2B3C'', ''#FFFF''}"
    by code_simp
  have "{''#1A2B3C'', ''#FFFF''} = upper ` hex_occurrences ''a { color: #1a2B3c; border: #ffff }'' \<and>
   (\<forall>c \<in> {''#1A2B3C'', ''#FFFF''}.
      \<exists>us. c = CHR ''#'' # us \<and> 3 \<le> length us \<and> length us \<le> 6 \<and> (\<forall>u \<in> set us. uphex u))"
    using hex_three_to_six [of "''a { color: #1a2B3c; border: #ffff }''"] unfolding h .
  then show ?thesis
    by blast
qed

text \<open>A literal of four digits is collected, against the claim as it is written.\<close>

theorem hex_four_digit_counterexample:
  "''#FFFF'' \<in> hex (extract_colors_from_css ''a { color: #ffff; }'')"
  by code_simp

section \<open>C3: upper case and no duplicates\<close>

lemma upper_char_table:
  "\<forall>d \<in> set ''#0123456789abcdefABCDEF''. upper_char d = [hex_upper d]"
  by code_simp

lemma hex_upper_table:
  "\<forall>d \<in> set ''#0123456789abcdefABCDEF''.
     hex_upper d \<in> set ''#0123456789ABCDEF'' \<and> hex_upper (hex_upper d) = hex_upper d \<and>
     hex_upper d \<notin> set ''abcdefghijklmnopqrstuvwxyz''"
  by code_simp

lemma hex_literal_chars:
  assumes "hex_literal m"
  shows "set m \<subseteq> set ''#0123456789abcdefABCDEF''"
proof -
  obtain ds where m: "m = CHR ''#'' # ds" and ds: "\<forall>d \<in> set ds. hexdigit d"
    using assms unfolding hex_literal_def by blast
  have "set ds \<subseteq> set ''0123456789abcdefABCDEF''"
  proof
    fix d
    assume "d \<in> set ds"
    with ds have "hexdigit d" ..
    then show "d \<in> set ''0123456789abcdefABCDEF''"
      unfolding hexdigit_def .
  qed
  then have "insert (CHR ''#'') (set ds) \<subseteq> insert (CHR ''#'') (set ''0123456789abcdefABCDEF'')"
    by (rule insert_mono)
  then show ?thesis
    unfolding m by simp
qed

lemma upper_on_table:
  "set m \<subseteq> set ''#0123456789abcdefABCDEF'' \<Longrightarrow> upper m = map hex_upper m"
proof (induction m)
  case Nil
  then show ?case
    by (simp add: upper_def)
next
  case (Cons d m)
  then have d: "d \<in> set ''#0123456789abcdefABCDEF''" and m: "set m \<subseteq> set ''#0123456789abcdefABCDEF''"
    by simp_all
  from upper_char_table d have "upper_char d = [hex_upper d]" ..
  moreover from m have "upper m = map hex_upper m"
    by (rule Cons.IH)
  ultimately show ?case
    by (simp add: upper_Cons)
qed

lemma findall_hex_literal:
  "m \<in> set (findall hex_pattern css []) \<Longrightarrow> hex_literal m"
  unfolding findall_def scan_hex hex_occurrences_def by blast

lemma upper_match: "m \<in> set (findall hex_pattern css []) \<Longrightarrow> upper m = map hex_upper m"
  by (intro upper_on_table hex_literal_chars findall_hex_literal)

text \<open>
  Claim C3. The hex collection is the set of the matches of the hex pattern with every
  letter \<open>a\<close> to \<open>f\<close> turned into \<open>A\<close> to \<open>F\<close> and nothing else changed: a text is an
  entry exactly when it is the upper case of a match. So no entry has a lower-case letter,
  an entry is its own upper case, and two matches give the same entry exactly when they
  differ in the case of their letters only. A text whose matches are \<open>#fff\<close> and
  \<open>#FFF\<close> yields the collection \<open>{#FFF}\<close>, of size one.
\<close>

theorem hex_upper_case_once:
  "(c \<in> hex (extract_colors_from_css css) \<longleftrightarrow>
      (\<exists>m \<in> set (findall hex_pattern css []). c = map hex_upper m)) \<and>
   (\<forall>e \<in> hex (extract_colors_from_css css).
      map hex_upper e = e \<and> (\<forall>x \<in> set e. x \<notin> set ''abcdefghijklmnopqrstuvwxyz'')) \<and>
   (\<forall>m1 \<in> set (findall hex_pattern css []). \<forall>m2 \<in> set (findall hex_pattern css []).
      upper m1 = upper m2 \<longleftrightarrow> map hex_upper m1 = map hex_upper m2) \<and>
   (set (findall hex_pattern css []) = {''#fff'', ''#FFF''} \<longrightarrow>
      hex (extract_colors_from_css css) = {''#FFF''} \<and> card (hex (extract_colors_from_css css)) = 1)"
proof (intro conjI ballI impI)
  have eq: "hex (extract_colors_from_css css) = map hex_upper ` set (findall hex_pattern css [])"
    unfolding hex_extract by (rule image_cong [OF refl]) (rule upper_match)
  show "c \<in> hex (extract_colors_from_css css) \<longleftrightarrow>
      (\<exists>m \<in> set (findall hex_pattern css []). c = map hex_upper m)"
    unfolding eq by blast
  {
    fix e
    assume "e \<in> hex (extract_colors_from_css css)"
    then obtain m where m: "m \<in> set (findall hex_pattern css [])" and e: "e = map hex_upper m"
      unfolding eq by blast
    have sub: "set m \<subseteq> set ''#0123456789abcdefABCDEF''"
      using m by (intro hex_literal_chars findall_hex_literal)
    have fixd: "hex_upper (hex_upper d) = hex_upper d" and low: "hex_upper d \<notin> set ''abcdefghijklmnopqrstuvwxyz''"
      if "d \<in> set m" for d
    proof -
      from sub that have "d \<in> set ''#0123456789abcdefABCDEF''" ..
      with hex_upper_table
      have "hex_upper d \<in> set ''#0123456789ABCDEF'' \<and> hex_upper (hex_upper d) = hex_upper d \<and>
        hex_upper d \<notin> set ''abcdefghijklmnopqrstuvwxyz''" ..
      then show "hex_upper (hex_upper d) = hex_upper d"
        and "hex_upper d \<notin> set ''abcdefghijklmnopqrstuvwxyz''"
        by (rule conjunct2 [THEN conjunct1], rule conjunct2 [THEN conjunct2])
    qed
    show "map hex_upper e = e"
      unfolding e by (simp add: fixd)
    fix x
    assume "x \<in> set e"
    then obtain d where d: "d \<in> set m" and x: "x = hex_upper d"
      unfolding e by auto
    show "x \<notin> set ''abcdefghijklmnopqrstuvwxyz''"
      unfolding x using d by (rule low)
  }
  {
    fix m1 m2
    assume "m1 \<in> set (findall hex_pattern css [])" and "m2 \<in> set (findall hex_pattern css [])"
    then show "upper m1 = upper m2 \<longleftrightarrow> map hex_upper m1 = map hex_upper m2"
      by (simp add: upper_match)
  }
  assume s: "set (findall hex_pattern css []) = {''#fff'', ''#FFF''}"
  have "map hex_upper ''#fff'' = ''#FFF''" and "map hex_upper ''#FFF'' = ''#FFF''"
    by (simp_all add: hex_upper_def)
  then show e: "hex (extract_colors_from_css css) = {''#FFF''}"
    unfolding eq s by simp
  show "card (hex (extract_colors_from_css css)) = 1"
    unfolding e by simp
qed

text \<open>The statement at a text with one literal in two casings and another in three.\<close>

theorem hex_upper_case_once_witness:
  "set (findall hex_pattern ''a { color: #fff } b { color: #FFF }'' []) = {''#fff'', ''#FFF''} \<and>
   hex (extract_colors_from_css ''a { color: #fff } b { color: #FFF }'') = {''#FFF''} \<and>
   card (hex (extract_colors_from_css ''a { color: #fff } b { color: #FFF }'')) = 1 \<and>
   ''#ABC'' \<in> hex (extract_colors_from_css ''#abc #AbC #09f #ABC'') \<and>
   ''#09F'' \<in> hex (extract_colors_from_css ''#abc #AbC #09f #ABC'') \<and>
   upper ''#abc'' = upper ''#AbC''"
proof -
  let ?css = "''a { color: #fff } b { color: #FFF }''"
  let ?two = "''#abc #AbC #09f #ABC''"
  have s: "set (findall hex_pattern ?css []) = {''#fff'', ''#FFF''}"
    by code_simp
  have f: "findall hex_pattern ?two [] = [''#abc'', ''#AbC'', ''#09f'', ''#ABC'']"
    by code_simp
  have one: "hex (extract_colors_from_css ?css) = {''#FFF''} \<and>
      card (hex (extract_colors_from_css ?css)) = 1"
    using hex_upper_case_once [of "[]" ?css] s by blast
  have "''#abc'' \<in> set (findall hex_pattern ?two [])" and "''#09f'' \<in> set (findall hex_pattern ?two [])"
    and "''#AbC'' \<in> set (findall hex_pattern ?two [])"
    unfolding f by simp_all
  moreover have "map hex_upper ''#abc'' = ''#ABC''" and "map hex_upper ''#09f'' = ''#09F''"
    and "map hex_upper ''#AbC'' = ''#ABC''"
    by (simp_all add: hex_upper_def)
  ultimately have "''#ABC'' \<in> hex (extract_colors_from_css ?two)"
    and "''#09F'' \<in> hex (extract_colors_from_css ?two)"
    and "upper ''#abc'' = upper ''#AbC''"
    using hex_upper_case_once [of "''#ABC''" ?two] hex_upper_case_once [of "''#09F''" ?two]
    by (metis, metis, metis)
  with s one show ?thesis
    by blast
qed

section \<open>Pieces of a text\<close>

lemma starts_with_iff: "starts_with sub s \<longleftrightarrow> (\<exists>post. s = sub @ post)"
  by (induction sub s rule: starts_with.induct) auto

lemma contains_iff: "contains sub s \<longleftrightarrow> (\<exists>pre post. s = pre @ sub @ post)"
proof (induction s)
  case Nil
  then show ?case
    by (simp add: starts_with_iff)
next
  case (Cons c cs)
  have "(\<exists>pre post. c # cs = pre @ sub @ post) \<longleftrightarrow>
        (\<exists>post. c # cs = sub @ post) \<or> (\<exists>pre post. cs = pre @ sub @ post)"
    by (auto simp: Cons_eq_append_conv)
  with Cons show ?case
    by (simp add: starts_with_iff)
qed

lemma scan_piece:
  "ngroups r = 0 \<Longrightarrow> x \<in> set (scan fl r ma p s) \<Longrightarrow> \<exists>pre post. s = pre @ x @ post"
proof (induction fl r ma p s rule: scan.induct)
  case (1 fl r ma p s)
  let ?c = "filter (\<lambda>(m, g, s'). \<not> (ma \<and> m = [])) (ms fl r p s)"
  show ?case
  proof (cases ?c)
    case Nil
    show ?thesis
    proof (cases s)
      case Nil
      with \<open>?c = []\<close> "1.prems" show ?thesis
        by (subst (asm) scan.simps) simp
    next
      case (Cons c cs)
      with \<open>?c = []\<close> "1.prems" have "x \<in> set (scan fl r False (Some c) cs)"
        by (subst (asm) scan.simps) simp
      then obtain pre post where "cs = pre @ x @ post"
        using "1.IH"(1) [OF \<open>?c = []\<close> Cons] "1.prems"(1) by blast
      then have "s = (c # pre) @ x @ post"
        using Cons by simp
      then show ?thesis
        by blast
    qed
  next
    case (Cons y ys)
    obtain m g s' where y: "y = (m, g, s')"
      by (cases y) auto
    have "(m, g, s') \<in> set ?c"
      using Cons y by simp
    then have "(m, g, s') \<in> set (ms fl r p s)"
      by simp
    then have s: "s = m @ s'"
      by (rule ms_sound)
    have x: "x = m \<or> x \<in> set (if m = [] then (if ma then [] else scan fl r True p s)
             else if length s' < length s then scan fl r False (Some (last m)) s' else [])"
      using "1.prems" Cons y by (subst (asm) scan.simps) (simp add: reported_def)
    show ?thesis
    proof (cases "x = m")
      case True
      then have "s = [] @ x @ s'"
        using s by simp
      then show ?thesis
        by blast
    next
      case False
      show ?thesis
      proof (cases "m = []")
        case True
        with False x have "\<not> ma" and "x \<in> set (scan fl r True p s)"
          by (auto split: if_splits)
        then show ?thesis
          using "1.IH"(2) [OF Cons y [symmetric] refl True] "1.prems"(1) by blast
      next
        case ne: False
        with False x have lt: "length s' < length s" and "x \<in> set (scan fl r False (Some (last m)) s')"
          by (auto split: if_splits)
        then obtain pre post where "s' = pre @ x @ post"
          using "1.IH"(3) [OF Cons y [symmetric] refl ne] "1.prems"(1) by blast
        then have "s = (m @ pre) @ x @ post"
          using s by simp
        then show ?thesis
          by blast
      qed
    qed
  qed
qed

section \<open>C4: routing of rgb and rgba matches\<close>

lemma fold_route_rgba:
  "rgba (fold route_rgb xs cs) = rgba cs \<union> {m \<in> set xs. contains ''rgba'' m}"
  by (induction xs arbitrary: cs) (auto simp: route_rgb_def)

lemma fold_route_rgb:
  "rgb (fold route_rgb xs cs) = rgb cs \<union> {m \<in> set xs. \<not> contains ''rgba'' m}"
  by (induction xs arbitrary: cs) (auto simp: route_rgb_def)

lemma rgba_extract:
  "rgba (extract_colors_from_css css) = {m \<in> set (findall rgb_pattern css []). contains ''rgba'' m}"
  by (simp add: extract_colors_from_css_def Let_def fold_route_rgba)

lemma rgb_extract:
  "rgb (extract_colors_from_css css) = {m \<in> set (findall rgb_pattern css []). \<not> contains ''rgba'' m}"
  by (simp add: extract_colors_from_css_def Let_def fold_route_rgb)

lemma ngroups_rgb: "ngroups rgb_pattern = 0"
  by (simp add: rgb_pattern_def seq_def lit_def)

text \<open>
  Claim C4. A match of the rgb pattern is in the rgba collection exactly when the text
  \<open>rgba\<close> occurs in it, and in the rgb collection exactly when it does not; so no text is
  in both collections. Every entry is a piece of the CSS text as it stands there.
\<close>

theorem rgb_routed_by_substring:
  "(m \<in> rgba (extract_colors_from_css css) \<longleftrightarrow>
      m \<in> set (findall rgb_pattern css []) \<and> (\<exists>a b. m = a @ ''rgba'' @ b)) \<and>
   (m \<in> rgb (extract_colors_from_css css) \<longleftrightarrow>
      m \<in> set (findall rgb_pattern css []) \<and> \<not> (\<exists>a b. m = a @ ''rgba'' @ b)) \<and>
   rgb (extract_colors_from_css css) \<inter> rgba (extract_colors_from_css css) = {} \<and>
   (\<forall>x \<in> rgb (extract_colors_from_css css) \<union> rgba (extract_colors_from_css css).
      \<exists>pre post. css = pre @ x @ post)"
proof (intro conjI ballI)
  show "m \<in> rgba (extract_colors_from_css css) \<longleftrightarrow>
      m \<in> set (findall rgb_pattern css []) \<and> (\<exists>a b. m = a @ ''rgba'' @ b)"
    by (simp add: rgba_extract contains_iff)
  show "m \<in> rgb (extract_colors_from_css css) \<longleftrightarrow>
      m \<in> set (findall rgb_pattern css []) \<and> \<not> (\<exists>a b. m = a @ ''rgba'' @ b)"
    by (simp add: rgb_extract contains_iff)
  show "rgb (extract_colors_from_css css) \<inter> rgba (extract_colors_from_css css) = {}"
    unfolding rgb_extract rgba_extract by blast
next
  fix x
  assume "x \<in> rgb (extract_colors_from_css css) \<union> rgba (extract_colors_from_css css)"
  then have "x \<in> set (scan [] rgb_pattern False None css)"
    unfolding rgb_extract rgba_extract findall_def by blast
  with ngroups_rgb show "\<exists>pre post. css = pre @ x @ post"
    by (rule scan_piece)
qed

text \<open>The statement at a text with one match of each kind.\<close>

theorem rgb_routed_by_substring_witness:
  "rgba (extract_colors_from_css ''a { color: rgba(0,0,0,0.5); border-color: rgb(0,0,0) }'')
     = {''rgba(0,0,0,0.5)''} \<and>
   rgb (extract_colors_from_css ''a { color: rgba(0,0,0,0.5); border-color: rgb(0,0,0) }'')
     = {''rgb(0,0,0)''} \<and>
   ''rgba(0,0,0,0.5)'' \<notin> rgb (extract_colors_from_css ''a { color: rgba(0,0,0,0.5); border-color: rgb(0,0,0) }'') \<and>
   ''rgb(0,0,0)'' \<notin> rgba (extract_colors_from_css ''a { color: rgba(0,0,0,0.5); border-color: rgb(0,0,0) }'') \<and>
   (\<exists>a b. ''rgba(0,0,0,0.5)'' = a @ ''rgba'' @ b) \<and>
   (\<exists>pre post. ''a { color: rgba(0,0,0,0.5); border-color: rgb(0,0,0) }'' = pre @ ''rgb(0,0,0)'' @ post)"
proof -
  let ?css = "''a { color: rgba(0,0,0,0.5); border-color: rgb(0,0,0) }''"
  have a: "rgba (extract_colors_from_css ?css) = {''rgba(0,0,0,0.5)''}"
    by code_simp
  have b: "rgb (extract_colors_from_css ?css) = {''rgb(0,0,0)''}"
    by code_simp
  have "''rgba(0,0,0,0.5)'' \<in> rgba (extract_colors_from_css ?css)"
    unfolding a by simp
  then have c: "\<exists>a b. ''rgba(0,0,0,0.5)'' = a @ ''rgba'' @ b"
    using rgb_routed_by_substring [of "''rgba(0,0,0,0.5)''" ?css] by blast
  have "''rgb(0,0,0)'' \<in> rgb (extract_colors_from_css ?css) \<union> rgba (extract_colors_from_css ?css)"
    unfolding b by simp
  then have d: "\<exists>pre post. ?css = pre @ ''rgb(0,0,0)'' @ post"
    using rgb_routed_by_substring [of "''rgb(0,0,0)''" ?css] by blast
  have e: "''rgba(0,0,0,0.5)'' \<notin> rgb (extract_colors_from_css ?css)"
    unfolding b by simp
  have f: "''rgb(0,0,0)'' \<notin> rgba (extract_colors_from_css ?css)"
    unfolding a by simp
  show ?thesis
    using a b c d e f by (intro conjI)
qed

section \<open>C5: the font list\<close>












section \<open>C6: margins and paddings\<close>

lemma margins_extract:
  "margins (extract_spacing_values css) = set (findall margin_pattern css [IGNORECASE])"
  by (simp add: extract_spacing_values_def Let_def)

lemma paddings_extract:
  "paddings (extract_spacing_values css) = set (findall padding_pattern css [IGNORECASE])"
  by (simp add: extract_spacing_values_def Let_def)

text \<open>
  Claim C6. The margins collection is the set of the values captured by the margin pattern:
  a value is in it once however many declarations carry it, and it has at most as many
  entries as there are matched declarations, so at most six for six declarations. The same
  holds for the paddings.
\<close>

theorem spacing_no_duplicates:
  "margins (extract_spacing_values css) = set (findall margin_pattern css [IGNORECASE]) \<and>
   card (margins (extract_spacing_values css)) \<le> length (findall margin_pattern css [IGNORECASE]) \<and>
   (length (findall margin_pattern css [IGNORECASE]) = 6 \<longrightarrow>
      card (margins (extract_spacing_values css)) \<le> 6) \<and>
   paddings (extract_spacing_values css) = set (findall padding_pattern css [IGNORECASE]) \<and>
   card (paddings (extract_spacing_values css)) \<le> length (findall padding_pattern css [IGNORECASE]) \<and>
   (length (findall padding_pattern css [IGNORECASE]) = 6 \<longrightarrow>
      card (paddings (extract_spacing_values css)) \<le> 6)"
  using card_length [of "findall margin_pattern css [IGNORECASE]"]
    card_length [of "findall padding_pattern css [IGNORECASE]"]
  by (simp add: margins_extract paddings_extract)

text \<open>The statement at a text with six declarations of each kind.\<close>

theorem spacing_no_duplicates_witness:
  "length (findall margin_pattern (six_margins @ six_paddings) [IGNORECASE]) = 6 \<and>
   margins (extract_spacing_values (six_margins @ six_paddings)) = {''1px'', ''2px'', ''0'', ''4px''} \<and>
   card (margins (extract_spacing_values (six_margins @ six_paddings))) \<le> 6 \<and>
   length (findall padding_pattern (six_margins @ six_paddings) [IGNORECASE]) = 6 \<and>
   paddings (extract_spacing_values (six_margins @ six_paddings)) = {''0''} \<and>
   card (paddings (extract_spacing_values (six_margins @ six_paddings))) \<le> 6"
proof -
  let ?css = "six_margins @ six_paddings"
  have m: "findall margin_pattern ?css [IGNORECASE] = [''1px'', ''2px'', ''1px'', ''2px'', ''0'', ''4px'']"
    by code_simp
  have p: "findall padding_pattern ?css [IGNORECASE] = [''0'', ''0'', ''0'', ''0'', ''0'', ''0'']"
    by code_simp
  have lm: "length (findall margin_pattern ?css [IGNORECASE]) = 6"
    unfolding m by simp
  have lp: "length (findall padding_pattern ?css [IGNORECASE]) = 6"
    unfolding p by simp
  have "card (margins (extract_spacing_values ?css)) \<le> 6"
    and "card (paddings (extract_spacing_values ?css)) \<le> 6"
    using spacing_no_duplicates [of ?css] lm lp by blast+
  moreover have "margins (extract_spacing_values ?css) = {''1px'', ''2px'', ''0'', ''4px''}"
    using spacing_no_duplicates [of ?css] unfolding m by auto
  moreover have "paddings (extract_spacing_values ?css) = {''0''}"
    using spacing_no_duplicates [of ?css] unfolding p by auto
  ultimately show ?thesis
    using lm lp by blast
qed

section \<open>C10: no word boundary on the left\<close>

text \<open>
  Claim C10. The margin and padding patterns do not look at what stands before the
  property name: from the text \<open>xmargin: 5px;\<close> the value goes into the margins, and from
  \<open>xpadding: 5px;\<close> into the paddings.
\<close>

theorem spacing_no_left_boundary:
  "margins (extract_spacing_values ''xmargin: 5px;'') = {''5px''} \<and>
   paddings (extract_spacing_values ''xpadding: 5px;'') = {''5px''}"
  by code_simp

section \<open>Evaluating lazy quantifiers\<close>

lemma reach_Nil: "reach P hi [] = 0"
  by (simp add: reach_def split: option.splits)

lemma reach_Cons:
  "reach P hi (c # cs) =
     (if P c \<and> hi \<noteq> Some 0 then Suc (reach P (map_option (\<lambda>h. h - 1) hi) cs) else 0)"
  by (cases hi) (auto simp: reach_def)

lemma last_char_Cons: "last_char p (c # m) = last_char (Some c) m"
  by (simp add: last_char_def)

lemma upt_shift: "[Suc lo ..< Suc n] = map Suc [lo ..< n]"
  by (simp add: map_Suc_upt)

lemma lazy_then_eq:
  "lazy_then f P grp lo hi acc p s =
     concat (map (\<lambda>k. map (\<lambda>(m2, g2, s2).
                 (rev acc @ take k s @ m2,
                  (case g2 of None \<Rightarrow> (if grp then Some (rev acc @ take k s) else None)
                            | Some g \<Rightarrow> Some g), s2))
               (f (last_char p (take k s)) (drop k s)))
       [lo ..< Suc (reach P hi s)])"
proof (induction s arbitrary: lo hi acc p)
  case Nil
  then show ?case
    by (simp add: reach_Nil emit_def last_char_def cong: option.case_cong)
next
  case (Cons c cs)
  let ?g = "\<lambda>acc p s k. map (\<lambda>(m2, g2, s2).
                 (rev acc @ take k s @ m2,
                  (case g2 of None \<Rightarrow> (if grp then Some (rev acc @ take k s) else None)
                            | Some g \<Rightarrow> Some g), s2))
               (f (last_char p (take k s)) (drop k s))"
  have zero: "?g acc p (c # cs) 0 = emit f grp acc p (c # cs)"
    by (simp add: emit_def last_char_def cong: option.case_cong)
  have suc: "?g acc p (c # cs) (Suc j) = ?g (c # acc) (Some c) cs j" for j
    by (simp add: last_char_Cons cong: option.case_cong)
  show ?case
  proof (cases "P c \<and> hi \<noteq> Some 0")
    case False
    then have r0: "reach P hi (c # cs) = 0"
      by (simp add: reach_Cons)
    have l: "lazy_then f P grp lo hi acc p (c # cs) = (if lo = 0 then emit f grp acc p (c # cs) else [])"
      using False by auto
    show ?thesis
    proof (cases "lo = 0")
      case True
      then have "[lo ..< Suc 0] = [0]"
        by simp
      then show ?thesis
        unfolding l r0 by (simp only: True if_True list.map concat.simps append_Nil2 zero simp_thms)
    next
      case False
      then show ?thesis
        unfolding l r0 by simp
    qed
  next
    case True
    let ?n = "reach P (map_option (\<lambda>h. h - 1) hi) cs"
    have r: "reach P hi (c # cs) = Suc ?n"
      using True by (simp add: reach_Cons)
    have ih: "lazy_then f P grp (lo - 1) (map_option (\<lambda>h. h - 1) hi) (c # acc) (Some c) cs
        = concat (map (?g (c # acc) (Some c) cs) [lo - 1 ..< Suc ?n])"
      by (rule Cons.IH)
    show ?thesis
    proof (cases lo)
      case 0
      have "[0 ..< Suc (Suc ?n)] = 0 # map Suc [0 ..< Suc ?n]"
        by (simp add: upt_rec [of 0] upt_shift del: upt_Suc)
      then have "concat (map (?g acc p (c # cs)) [lo ..< Suc (reach P hi (c # cs))])
          = ?g acc p (c # cs) 0 @ concat (map (\<lambda>j. ?g acc p (c # cs) (Suc j)) [0 ..< Suc ?n])"
        unfolding r 0 by (simp only: list.map concat.simps map_map comp_def)
      also have "\<dots> = emit f grp acc p (c # cs) @ concat (map (?g (c # acc) (Some c) cs) [0 ..< Suc ?n])"
        unfolding zero suc ..
      finally show ?thesis
        using True ih 0 by simp
    next
      case (Suc l)
      have "[lo ..< Suc (Suc ?n)] = map Suc [l ..< Suc ?n]"
        unfolding Suc by (rule upt_shift)
      then have "concat (map (?g acc p (c # cs)) [lo ..< Suc (reach P hi (c # cs))])
          = concat (map (\<lambda>j. ?g acc p (c # cs) (Suc j)) [l ..< Suc ?n])"
        unfolding r by (simp only: map_map comp_def)
      also have "\<dots> = concat (map (?g (c # acc) (Some c) cs) [l ..< Suc ?n])"
        unfolding suc ..
      finally show ?thesis
        using True ih Suc by simp
    qed
  qed
qed

lemma ms_Cat_code:
  "ms fl (Cat r1 r2) p s =
     (case r1 of
        Lazy a lo hi \<Rightarrow> lazy_then (ms fl r2) (atom_ok fl a) False lo hi [] p s
      | Group (Lazy a lo hi) \<Rightarrow> lazy_then (ms fl r2) (atom_ok fl a) True lo hi [] p s
      | _ \<Rightarrow>
        concat (map (\<lambda>(m1, g1, s1).
          map (\<lambda>(m2, g2, s2). (m1 @ m2, (case g2 of None \<Rightarrow> g1 | Some g \<Rightarrow> Some g), s2))
              (ms fl r2 (last_char p m1) s1))
         (ms fl r1 p s)))"
proof -
  have a: "ms fl (Cat (Lazy a lo hi) r2) p s
      = lazy_then (ms fl r2) (atom_ok fl a) False lo hi [] p s" for a lo hi
    by (simp add: lazy_then_eq split_at_def comp_def map_concat cong: option.case_cong)
  have b: "ms fl (Cat (Group (Lazy a lo hi)) r2) p s
      = lazy_then (ms fl r2) (atom_ok fl a) True lo hi [] p s" for a lo hi
    by (simp add: lazy_then_eq split_at_def comp_def map_concat cong: option.case_cong)
  show ?thesis
  proof (cases r1)
    case (Lazy a lo hi)
    then show ?thesis
      by (simp only: a regex.case)
  next
    case g: (Group r)
    show ?thesis
    proof (cases r)
      case (Lazy a lo hi)
      then show ?thesis
        unfolding g by (simp only: b regex.case)
    qed (simp_all only: g regex.case ms.simps)
  qed (simp_all only: regex.case ms.simps)
qed

lemmas ms_code [code] = ms.simps(1,2) ms_Cat_code ms.simps(4,5,6,7,8)

section \<open>C2: which texts are analysed\<close>

text \<open>
  Claim C2, as the code has it. When the host of the URL is found, the report has the
  results of the three extractors exactly when the CSS text is given and is not empty;
  when it is left out or is the empty text, the three entries keep their empty defaults.
\<close>

theorem css_analysed_when_not_empty:
  "\<exists>r. analyze_website (Inr d) u html css = Inr r \<and> url r = u \<and> domain r = d \<and>
     (css \<noteq> None \<and> css \<noteq> Some [] \<longrightarrow>
        colors r = Some (extract_colors_from_css (the css)) \<and>
        typography r = Some (extract_fonts_from_css (the css)) \<and>
        spacing r = Some (extract_spacing_values (the css))) \<and>
     (css = None \<or> css = Some [] \<longrightarrow>
        colors r = None \<and> typography r = None \<and> spacing r = None)"
  by (cases css) (simp_all add: analyze_website_def truthy_def Let_def)

text \<open>The statement at a CSS text with one color.\<close>

theorem css_analysed_when_not_empty_witness:
  "\<exists>r. analyze_website (Inr ''example.com'') ''https://example.com'' None (Some ''a{color:#fff}'') = Inr r \<and>
     colors r = Some (extract_colors_from_css ''a{color:#fff}'') \<and>
     typography r = Some (extract_fonts_from_css ''a{color:#fff}'') \<and>
     spacing r = Some (extract_spacing_values ''a{color:#fff}'')"
  using css_analysed_when_not_empty [of "''example.com''" "''https://example.com''" None "Some ''a{color:#fff}''"]
  by auto

text \<open>With the empty text for the CSS, which is not absent, no extractor is called and
  the three entries stay empty, against the claim as it is written.\<close>

theorem empty_css_counterexample:
  "analyze_website (Inr ''example.com'') ''https://example.com'' None (Some [])
     = Inr \<lparr>url = ''https://example.com'', domain = ''example.com'', colors = None,
            typography = None, spacing = None, components = None,
            metadata = \<lparr>analyzed_at = ''timestamp'', version = ''1.0''\<rparr>\<rparr>"
  by (simp add: analyze_website_def truthy_def)

section \<open>C7: buttons, forms and navigation\<close>





section \<open>C8: headings\<close>

lemma fold_add_level:
  "fold (add_level html) ls acc =
     acc @ map (\<lambda>l. \<lparr>key = ''h'' @ str l,
                      count = length (findall (heading_pattern l) html [IGNORECASE, DOTALL]),
                      examples = take 3 (findall (heading_pattern l) html [IGNORECASE, DOTALL])\<rparr>)
             (filter (\<lambda>l. findall (heading_pattern l) html [IGNORECASE, DOTALL] \<noteq> []) ls)"
  by (induction ls arbitrary: acc) (simp_all add: add_level_def Let_def)

lemma levels: "[1 ..< 7] = [1, 2, 3, 4, 5, 6 :: nat]"
  by code_simp

lemma headings_eq:
  "headings (analyze_html_structure html) =
     map (\<lambda>l. \<lparr>key = ''h'' @ str l,
                count = length (findall (heading_pattern l) html [IGNORECASE, DOTALL]),
                examples = take 3 (findall (heading_pattern l) html [IGNORECASE, DOTALL])\<rparr>)
       (filter (\<lambda>l. findall (heading_pattern l) html [IGNORECASE, DOTALL] \<noteq> []) [1 ..< 7])"
  unfolding analyze_html_structure_def Let_def fold_add_level by simp






section \<open>Texts without a match\<close>

lemma ord_lower_char:
  "ord (lower_char x) =
     (if between (CHR ''A'') (CHR ''Z'') x \<or> (192 \<le> ord x \<and> ord x \<le> 222 \<and> ord x \<noteq> 215)
      then ord x + 32 else ord x)"
  using ord_lt [of x] by (auto simp: lower_char_def between_def ord_simps ord_char_of)

lemma uncased_below:
  assumes "ord c < 65"
  shows "uncased c"
  unfolding uncased_def
proof (intro allI impI)
  fix x
  assume "lower_char x = lower_char c"
  then have "ord (lower_char x) = ord (lower_char c)"
    by simp
  then have "ord x = ord c"
    using assms unfolding ord_lower_char between_def ord_simps by (auto split: if_splits)
  then show "x = c"
    by (rule ord_inj)
qed

lemma uncased_marks:
  "uncased (CHR ''#'')" "uncased (CHR ''('')" "uncased (CHR '';'')" "uncased (CHR ''<'')"
  by (rule uncased_below, simp add: ord_def)+

lemma ms_needs:
  "uncased c \<Longrightarrow> needs c r \<Longrightarrow> (m, g, s') \<in> set (ms fl r p s) \<Longrightarrow> c \<in> set m"
proof (induction r arbitrary: m g s' p s)
  case (One a)
  then show ?case
    by (auto simp: uncased_def split: list.splits if_splits)
next
  case (Cat r1 r2)
  from Cat.prems(3) obtain m1 g1 s1 m2 g2 where
    1: "(m1, g1, s1) \<in> set (ms fl r1 p s)" and 2: "(m2, g2, s') \<in> set (ms fl r2 (last_char p m1) s1)"
    and m: "m = m1 @ m2"
    unfolding ms_Cat_iff by blast
  from Cat.prems(2) have "needs c r1 \<or> needs c r2"
    by simp
  then show ?case
    using Cat.IH(1) [OF Cat.prems(1) _ 1] Cat.IH(2) [OF Cat.prems(1) _ 2] m by auto
next
  case (Group r)
  from Group.prems(3) obtain g' where "(m, g', s') \<in> set (ms fl r p s)"
    unfolding ms_Group_iff by blast
  with Group.IH Group.prems(1,2) show ?case
    by simp
qed simp_all

lemma scan_without:
  assumes u: "uncased c" and n: "needs c r"
  shows "c \<notin> set s \<Longrightarrow> scan fl r ma p s = []"
proof (induction s arbitrary: ma p)
  case Nil
  have "ms fl r p [] = []"
  proof (rule ccontr)
    assume "ms fl r p [] \<noteq> []"
    then obtain m g s' where in_ms: "(m, g, s') \<in> set (ms fl r p [])"
      by (cases "ms fl r p []") auto
    then have "c \<in> set m" and "[] = m @ s'"
      using ms_needs [OF u n] ms_sound by blast+
    then show False
      by simp
  qed
  then show ?case
    by (subst scan.simps) simp
next
  case (Cons x xs)
  have "ms fl r p (x # xs) = []"
  proof (rule ccontr)
    assume "ms fl r p (x # xs) \<noteq> []"
    then obtain m g s' where in_ms: "(m, g, s') \<in> set (ms fl r p (x # xs))"
      by (cases "ms fl r p (x # xs)") auto
    then have "c \<in> set m" and "x # xs = m @ s'"
      using ms_needs [OF u n] ms_sound by blast+
    then have "c \<in> set (x # xs)"
      by (metis Un_iff set_append)
    with Cons.prems show False
      by simp
  qed
  moreover have "scan fl r False (Some x) xs = []"
    using Cons by simp
  ultimately show ?case
    by (subst scan.simps) simp
qed

lemma findall_without:
  "uncased c \<Longrightarrow> needs c r \<Longrightarrow> c \<notin> set s \<Longrightarrow> findall r s fl = []"
  unfolding findall_def by (rule scan_without)

lemma needs_patterns:
  "needs (CHR ''#'') hex_pattern" "needs (CHR ''('') rgb_pattern" "needs (CHR '';'') font_pattern"
  "needs (CHR '';'') margin_pattern" "needs (CHR '';'') padding_pattern"
  "needs (CHR ''<'') button_pattern" "needs (CHR ''<'') form_pattern" "needs (CHR ''<'') nav_pattern"
  "needs (CHR ''<'') (heading_pattern l)"
  by (simp_all add: hex_pattern_def rgb_pattern_def font_pattern_def margin_pattern_def
      padding_pattern_def spacing_pattern_def button_pattern_def form_pattern_def nav_pattern_def
      element_pattern_def heading_pattern_def seq_def lit_def)

section \<open>C9: every text has a result\<close>

lemma colors_empty:
  "findall hex_pattern css [] = [] \<Longrightarrow> findall rgb_pattern css [] = [] \<Longrightarrow>
     extract_colors_from_css css = \<lparr>hex = {}, rgb = {}, rgba = {}\<rparr>"
  by (simp add: extract_colors_from_css_def)

lemma fonts_empty:
  "findall font_pattern css [IGNORECASE] = [] \<Longrightarrow> extract_fonts_from_css css = []"
  by (simp add: extract_fonts_from_css_def)

lemma spacing_empty:
  "findall margin_pattern css [IGNORECASE] = [] \<Longrightarrow> findall padding_pattern css [IGNORECASE] = [] \<Longrightarrow>
     extract_spacing_values css = \<lparr>margins = {}, paddings = {}\<rparr>"
  by (simp add: extract_spacing_values_def)

lemma components_empty:
  assumes "findall button_pattern html [IGNORECASE, DOTALL] = []"
    and "findall form_pattern html [IGNORECASE, DOTALL] = []"
    and "findall nav_pattern html [IGNORECASE, DOTALL] = []"
    and "\<forall>l \<in> {1, 2, 3, 4, 5, 6}. findall (heading_pattern l) html [IGNORECASE, DOTALL] = []"
  shows "analyze_html_structure html = \<lparr>buttons = [], forms = 0, navigation = 0, headings = []\<rparr>"
proof -
  have "filter (\<lambda>l. findall (heading_pattern l) html [IGNORECASE, DOTALL] \<noteq> []) [1, 2, 3, 4, 5, 6] = []"
    using assms(4) by (intro filter_False) simp
  then have "fold (add_level html) [1 ..< 7] [] = []"
    by (simp only: fold_add_level levels list.map append_Nil)
  then show ?thesis
    unfolding analyze_html_structure_def Let_def assms(1,2,3) by simp
qed

text \<open>
  Claim C9. No extraction function has a failing case: each is a function of the text
  alone, built from the scan, which ends on every text, and from operations on strings
  and lists that are defined everywhere. For every text the collections are finite sets,
  and there are at most five buttons and six heading records. A text in which a pattern
  has no match
  contributes nothing: the collections are empty and the counts zero. This is so in
  particular for a CSS text without \<open>#\<close> and \<open>(\<close> (no color), for one without \<open>;\<close> (no
  font, margin or padding), and for an HTML text without \<open><\<close>.
\<close>

theorem no_match_empty_result:
  "finite (hex (extract_colors_from_css css)) \<and> finite (rgb (extract_colors_from_css css)) \<and>
   finite (rgba (extract_colors_from_css css)) \<and>
   finite (margins (extract_spacing_values css)) \<and> finite (paddings (extract_spacing_values css)) \<and>
   length (buttons (analyze_html_structure html)) \<le> 5 \<and>
   length (headings (analyze_html_structure html)) \<le> 6 \<and>
   (findall hex_pattern css [] = [] \<and> findall rgb_pattern css [] = [] \<longrightarrow>
      extract_colors_from_css css = \<lparr>hex = {}, rgb = {}, rgba = {}\<rparr>) \<and>
   (findall font_pattern css [IGNORECASE] = [] \<longrightarrow> extract_fonts_from_css css = []) \<and>
   (findall margin_pattern css [IGNORECASE] = [] \<and> findall padding_pattern css [IGNORECASE] = [] \<longrightarrow>
      extract_spacing_values css = \<lparr>margins = {}, paddings = {}\<rparr>) \<and>
   (findall button_pattern html [IGNORECASE, DOTALL] = [] \<and>
    findall form_pattern html [IGNORECASE, DOTALL] = [] \<and>
    findall nav_pattern html [IGNORECASE, DOTALL] = [] \<and>
    (\<forall>l \<in> {1, 2, 3, 4, 5, 6}. findall (heading_pattern l) html [IGNORECASE, DOTALL] = []) \<longrightarrow>
      analyze_html_structure html = \<lparr>buttons = [], forms = 0, navigation = 0, headings = []\<rparr>) \<and>
   (CHR ''#'' \<notin> set css \<and> CHR ''('' \<notin> set css \<longrightarrow>
      extract_colors_from_css css = \<lparr>hex = {}, rgb = {}, rgba = {}\<rparr>) \<and>
   (CHR '';'' \<notin> set css \<longrightarrow>
      extract_fonts_from_css css = [] \<and>
      extract_spacing_values css = \<lparr>margins = {}, paddings = {}\<rparr>) \<and>
   (CHR ''<'' \<notin> set html \<longrightarrow>
      analyze_html_structure html = \<lparr>buttons = [], forms = 0, navigation = 0, headings = []\<rparr>)"
proof (intro conjI impI)
  show "finite (hex (extract_colors_from_css css))" "finite (rgb (extract_colors_from_css css))"
    "finite (rgba (extract_colors_from_css css))"
    by (simp_all add: hex_extract rgb_extract rgba_extract)
  show "finite (margins (extract_spacing_values css))" "finite (paddings (extract_spacing_values css))"
    by (simp_all add: margins_extract paddings_extract)
  show "length (buttons (analyze_html_structure html)) \<le> 5"
    by (simp add: analyze_html_structure_def Let_def)
  have "length (filter (\<lambda>l. findall (heading_pattern l) html [IGNORECASE, DOTALL] \<noteq> []) [1 ..< 7])
      \<le> length [1 ..< 7 :: nat]"
    by (rule length_filter_le)
  then show "length (headings (analyze_html_structure html)) \<le> 6"
    unfolding headings_eq by simp
  show "extract_colors_from_css css = \<lparr>hex = {}, rgb = {}, rgba = {}\<rparr>"
    if "findall hex_pattern css [] = [] \<and> findall rgb_pattern css [] = []"
    using that by (intro colors_empty) simp_all
  show "extract_fonts_from_css css = []" if "findall font_pattern css [IGNORECASE] = []"
    using that by (rule fonts_empty)
  show "extract_spacing_values css = \<lparr>margins = {}, paddings = {}\<rparr>"
    if "findall margin_pattern css [IGNORECASE] = [] \<and> findall padding_pattern css [IGNORECASE] = []"
    using that by (intro spacing_empty) simp_all
  show "analyze_html_structure html = \<lparr>buttons = [], forms = 0, navigation = 0, headings = []\<rparr>"
    if "findall button_pattern html [IGNORECASE, DOTALL] = [] \<and>
      findall form_pattern html [IGNORECASE, DOTALL] = [] \<and>
      findall nav_pattern html [IGNORECASE, DOTALL] = [] \<and>
      (\<forall>l \<in> {1, 2, 3, 4, 5, 6}. findall (heading_pattern l) html [IGNORECASE, DOTALL] = [])"
    using that by (intro components_empty) simp_all
  show "extract_colors_from_css css = \<lparr>hex = {}, rgb = {}, rgba = {}\<rparr>"
    if "CHR ''#'' \<notin> set css \<and> CHR ''('' \<notin> set css"
    using that by (intro colors_empty findall_without [OF uncased_marks(1) needs_patterns(1)]
        findall_without [OF uncased_marks(2) needs_patterns(2)]) simp_all
  show "extract_fonts_from_css css = []" if "CHR '';'' \<notin> set css"
    using that by (intro fonts_empty findall_without [OF uncased_marks(3) needs_patterns(3)])
  show "extract_spacing_values css = \<lparr>margins = {}, paddings = {}\<rparr>" if "CHR '';'' \<notin> set css"
    using that by (intro spacing_empty findall_without [OF uncased_marks(3) needs_patterns(4)]
        findall_without [OF uncased_marks(3) needs_patterns(5)])
  show "analyze_html_structure html = \<lparr>buttons = [], forms = 0, navigation = 0, headings = []\<rparr>"
    if "CHR ''<'' \<notin> set html"
    using that by (intro components_empty ballI findall_without [OF uncased_marks(4) needs_patterns(6)]
        findall_without [OF uncased_marks(4) needs_patterns(7)]
        findall_without [OF uncased_marks(4) needs_patterns(8)]
        findall_without [OF uncased_marks(4) needs_patterns(9)])
qed

text \<open>The statement at a CSS text without a declaration and at an HTML text whose tags
  are never closed.\<close>

theorem no_match_empty_result_witness:
  "extract_colors_from_css ''body { color: red }'' = \<lparr>hex = {}, rgb = {}, rgba = {}\<rparr> \<and>
   extract_fonts_from_css ''body { color: red }'' = [] \<and>
   extract_spacing_values ''body { color: red }'' = \<lparr>margins = {}, paddings = {}\<rparr> \<and>
   analyze_html_structure ''<button><h1>never closed <nav'' =
     \<lparr>buttons = [], forms = 0, navigation = 0, headings = []\<rparr> \<and>
   analyze_html_structure ''no tag at all'' = \<lparr>buttons = [], forms = 0, navigation = 0, headings = []\<rparr>"
proof -
  let ?css = "''body { color: red }''"
  let ?html = "''<button><h1>never closed <nav''"
  let ?text = "''no tag at all''"
  have c: "CHR ''#'' \<notin> set ?css \<and> CHR ''('' \<notin> set ?css" and s: "CHR '';'' \<notin> set ?css"
    and t: "CHR ''<'' \<notin> set ?text"
    by simp_all
  have h: "findall button_pattern ?html [IGNORECASE, DOTALL] = [] \<and>
      findall form_pattern ?html [IGNORECASE, DOTALL] = [] \<and>
      findall nav_pattern ?html [IGNORECASE, DOTALL] = [] \<and>
      (\<forall>l \<in> {1, 2, 3, 4, 5, 6}. findall (heading_pattern l) ?html [IGNORECASE, DOTALL] = [])"
    by code_simp
  note thm1 = no_match_empty_result [of ?css ?html]
  note thm2 = no_match_empty_result [of ?css ?text]
  have "extract_colors_from_css ?css = \<lparr>hex = {}, rgb = {}, rgba = {}\<rparr>"
    using thm1 c by blast
  moreover have "extract_fonts_from_css ?css = [] \<and>
      extract_spacing_values ?css = \<lparr>margins = {}, paddings = {}\<rparr>"
    using thm1 s by blast
  moreover have "analyze_html_structure ?html = \<lparr>buttons = [], forms = 0, navigation = 0, headings = []\<rparr>"
    using thm1 h by blast
  moreover have "analyze_html_structure ?text = \<lparr>buttons = [], forms = 0, navigation = 0, headings = []\<rparr>"
    using thm2 t by blast
  ultimately show ?thesis
    by blast
qed

end
